theory Spec2Isabelle
  imports Complex_Main "HOL-Library.Sublist"
begin

section \<open>Statistics module (src/llm\_judge/statistics.py)\<close>

text \<open>
  Python floats are idealised as exact reals throughout this section: true division
  is division in \<open>real\<close>, and a division by zero is the error value
  \<open>ZeroDivisionError\<close>. Python's unbounded integers are \<open>int\<close>.
\<close>

datatype py_error = ValueError | ZeroDivisionError

text \<open>Python's \<open>a / b\<close> on numbers.\<close>

definition truediv :: "real \<Rightarrow> real \<Rightarrow> py_error + real" where
  "truediv a b = (if b = 0 then Inl ZeroDivisionError else Inr (a / b))"

text \<open>The four category labels \<open>'low'\<close>, \<open>'medium-low'\<close>, \<open>'medium-high'\<close>, \<open>'high'\<close>.\<close>

datatype category = Low | MediumLow | MediumHigh | High

definition categorize :: "int \<Rightarrow> category" where
  "categorize score =
     (if score \<le> 25 then Low
      else if score \<le> 50 then MediumLow
      else if score \<le> 75 then MediumHigh
      else High)"

text \<open>
  \<open>calculate_cohens_kappa\<close>. \<open>Counter(cats)[cat]\<close> is \<open>count_list cats cat\<close>
  (0 for an absent key); the generator over \<open>set(cats1 + cats2)\<close> is a sum over the
  set of the concatenation. The first division by \<open>n\<close> raises when the lists are
  empty; the divisions by \<open>n\<close> inside \<open>expected_agreement\<close> are reached only past it,
  so with \<open>n \<noteq> 0\<close>.
\<close>

definition observed_agreement :: "category list \<Rightarrow> category list \<Rightarrow> py_error + real" where
  "observed_agreement cats1 cats2 =
     truediv (of_nat (length (filter (\<lambda>(c1, c2). c1 = c2) (zip cats1 cats2))))
             (of_nat (length cats1))"

definition expected_agreement :: "category list \<Rightarrow> category list \<Rightarrow> real" where
  "expected_agreement cats1 cats2 =
     (\<Sum>cat \<in> set (cats1 @ cats2).
        (of_nat (count_list cats1 cat) / of_nat (length cats1)) *
        (of_nat (count_list cats2 cat) / of_nat (length cats1)))"

definition calculate_cohens_kappa :: "int list \<Rightarrow> int list \<Rightarrow> py_error + real" where
  "calculate_cohens_kappa ratings1 ratings2 =
     (if length ratings1 \<noteq> length ratings2 then Inl ValueError
      else
        let cats1 = map categorize ratings1;
            cats2 = map categorize ratings2
        in case observed_agreement cats1 cats2 of
             Inl e \<Rightarrow> Inl e
           | Inr observed \<Rightarrow>
               let expected = expected_agreement cats1 cats2
               in if expected = 1 then Inr 1
                  else truediv (observed - expected) (1 - expected))"

text \<open>
  \<open>calculate_variance\<close>. \<open>statistics.mean\<close>, \<open>statistics.variance\<close> (the sample
  variance, divisor \<open>n - 1\<close>) and \<open>statistics.stdev\<close> (its square root) are the
  standard library's; they are called on a non-empty list, and the last two only on a
  list of at least two scores.
\<close>

record score_stats =
  mean :: real
  variance :: real
  std_dev :: real
  min_score :: int
  max_score :: int
  count :: nat

definition statistics_mean :: "int list \<Rightarrow> real" where
  "statistics_mean scores = of_int (sum_list scores) / of_nat (length scores)"

definition statistics_variance :: "int list \<Rightarrow> real" where
  "statistics_variance scores =
     (\<Sum>x \<leftarrow> scores. (of_int x - statistics_mean scores)\<^sup>2) / of_nat (length scores - 1)"

definition statistics_stdev :: "int list \<Rightarrow> real" where
  "statistics_stdev scores = sqrt (statistics_variance scores)"

definition calculate_variance :: "int list \<Rightarrow> score_stats" where
  "calculate_variance scores =
     (case scores of
        [] \<Rightarrow> \<lparr>mean = 0, variance = 0, std_dev = 0, min_score = 0, max_score = 0, count = 0\<rparr>
      | x # xs \<Rightarrow>
          \<lparr>mean = statistics_mean scores,
           variance = (if length scores > 1 then statistics_variance scores else 0),
           std_dev = (if length scores > 1 then statistics_stdev scores else 0),
           min_score = fold min xs x,
           max_score = fold max xs x,
           count = length scores\<rparr>)"

subsection \<open>The kappa computation as the specification words it\<close>

text \<open>
  The four fixed quartile categories, each given by its bounds, and the quantities the
  specification names: the fraction of positions whose bins match, the marginal
  probability of a bin in one list, and the sum over the categories of the products of
  the two marginals.
\<close>

definition quartile_bins :: "(int \<times> int) list" where
  "quartile_bins = [(0, 25), (26, 50), (51, 75), (76, 100)]"

definition in_bin :: "int \<times> int \<Rightarrow> int \<Rightarrow> bool" where
  "in_bin b s = (fst b \<le> s \<and> s \<le> snd b)"

definition bins_match :: "int \<Rightarrow> int \<Rightarrow> bool" where
  "bins_match s t = (\<exists>b \<in> set quartile_bins. in_bin b s \<and> in_bin b t)"

definition spec_observed :: "int list \<Rightarrow> int list \<Rightarrow> real" where
  "spec_observed r1 r2 =
     of_nat (card {i \<in> {..<length r1}. bins_match (r1 ! i) (r2 ! i)}) / of_nat (length r1)"

definition spec_marginal :: "int \<times> int \<Rightarrow> int list \<Rightarrow> real" where
  "spec_marginal b r = of_nat (card {i \<in> {..<length r}. in_bin b (r ! i)}) / of_nat (length r)"

definition spec_expected :: "int list \<Rightarrow> int list \<Rightarrow> real" where
  "spec_expected r1 r2 = (\<Sum>b \<leftarrow> quartile_bins. spec_marginal b r1 * spec_marginal b r2)"

definition spec_kappa :: "int list \<Rightarrow> int list \<Rightarrow> real" where
  "spec_kappa r1 r2 =
     (if spec_expected r1 r2 = 1 then 1
      else (spec_observed r1 r2 - spec_expected r1 r2) / (1 - spec_expected r1 r2))"

text \<open>The bounds of the quartile that carries a category label (used to relate the two).\<close>

definition bin_of :: "category \<Rightarrow> int \<times> int" where
  "bin_of c =
     (case c of Low \<Rightarrow> (0, 25) | MediumLow \<Rightarrow> (26, 50)
      | MediumHigh \<Rightarrow> (51, 75) | High \<Rightarrow> (76, 100))"

section \<open>Strings\<close>

text \<open>
  A Python \<open>str\<close> is modelled as a \<open>string\<close> whose characters are the code points
  below 256; \<open>length\<close> is \<open>len\<close>. \<open>isspace\<close> is \<open>str.isspace\<close> on one such
  character, which is also what the pattern \<open>\s\<close> matches and what \<open>strip\<close> and
  \<open>split\<close> remove: the code points 9 to 13, 28 to 32, 133 and 160.
\<close>

definition isspace :: "char \<Rightarrow> bool" where
  "isspace c =
     (let n = (of_char c :: nat)
      in (9 \<le> n \<and> n \<le> 13) \<or> (28 \<le> n \<and> n \<le> 32) \<or> n = 133 \<or> n = 160)"

abbreviation newline :: char where
  "newline \<equiv> CHR 0x0A"

definition lstrip :: "string \<Rightarrow> string" where
  "lstrip s = dropWhile isspace s"

definition rstrip :: "string \<Rightarrow> string" where
  "rstrip s = rev (dropWhile isspace (rev s))"

definition strip :: "string \<Rightarrow> string" where
  "strip s = rstrip (lstrip s)"

text \<open>\<open>str.lower\<close>: the upper-case letters A-Z and the Latin-1 capitals move up by 32.\<close>

definition lower_char :: "char \<Rightarrow> char" where
  "lower_char c =
     (let n = (of_char c :: nat)
      in if (65 \<le> n \<and> n \<le> 90) \<or> (192 \<le> n \<and> n \<le> 222 \<and> n \<noteq> 215)
         then char_of (n + 32) else c)"

definition lower :: "string \<Rightarrow> string" where
  "lower s = map lower_char s"

text \<open>
  \<open>str.split()\<close> with no argument: the maximal runs of non-whitespace characters, in
  order. The first argument is the word being read.
\<close>

fun split_acc :: "string \<Rightarrow> string \<Rightarrow> string list" where
  "split_acc w [] = (if w = [] then [] else [w])"
| "split_acc w (c # cs) =
     (if isspace c then (if w = [] then split_acc [] cs else w # split_acc [] cs)
      else split_acc (w @ [c]) cs)"

definition split_ws :: "string \<Rightarrow> string list" where
  "split_ws s = split_acc [] s"

text \<open>Python's \<open>s[i:]\<close> for an integer \<open>i\<close>: a negative index counts from the end.\<close>

definition slice_from :: "string \<Rightarrow> int \<Rightarrow> string" where
  "slice_from s i =
     (let n = int (length s);
          j = (if i < 0 then max 0 (n + i) else min i n)
      in drop (nat j) s)"

text \<open>\<open>str(n)\<close> for a non-negative integer, as the f-strings format the chunk index.\<close>

fun str_nat :: "nat \<Rightarrow> string" where
  "str_nat n =
     (if n < 10 then [char_of (48 + n)]
      else str_nat (n div 10) @ [char_of (48 + n mod 10)])"

declare str_nat.simps [simp del]

section \<open>Document chunker (src/event\_extraction/document\_chunker.py)\<close>

record document_chunker =
  chunk_size :: int
  overlap :: int

text \<open>A chunk dictionary; the key \<open>'text'\<close> is the field \<open>chunk_text\<close>.\<close>

record chunk =
  chunk_id :: string
  chunk_text :: string
  start_char :: int
  end_char :: int
  chunk_index :: nat

text \<open>
  \<open>re.split(r'\n\s*\n', text)\<close>. A match starts at a newline. The greedy \<open>\s*\<close> takes
  the whole run of whitespace after it and backtracks to the last newline of that run,
  so the match ends there; without a newline in the run there is no match at this
  position. \<open>blank_sep rest\<close> is, for the text after a newline, the number of further
  characters the match consumes. The search goes on behind the match.
\<close>

definition blank_sep :: "string \<Rightarrow> nat option" where
  "blank_sep rest =
     (let run = takeWhile isspace rest
      in if newline \<in> set run
         then Some (length run - length (takeWhile (\<lambda>c. c \<noteq> newline) (rev run)))
         else None)"

fun re_split :: "string \<Rightarrow> string \<Rightarrow> string list" where
  "re_split piece [] = [piece]"
| "re_split piece (c # rest) =
     (if c = newline then
        (case blank_sep rest of
           Some k \<Rightarrow> piece # re_split [] (drop k rest)
         | None \<Rightarrow> re_split (piece @ [c]) rest)
      else re_split (piece @ [c]) rest)"

definition split_paragraphs :: "string \<Rightarrow> string list" where
  "split_paragraphs s = re_split [] s"

text \<open>The variables of the loop of \<open>chunk_document\<close>.\<close>

record chunk_state =
  chunks :: "chunk list"
  current_chunk :: string
  chunk_start :: int
  index :: nat

definition make_chunk :: "string \<Rightarrow> chunk_state \<Rightarrow> chunk" where
  "make_chunk document_id st =
     \<lparr>chunk_id = document_id @ ''_chunk_'' @ str_nat (index st),
      chunk_text = strip (current_chunk st),
      start_char = chunk_start st,
      end_char = chunk_start st + int (length (current_chunk st)),
      chunk_index = index st\<rparr>"

definition overlap_text :: "document_chunker \<Rightarrow> string \<Rightarrow> string" where
  "overlap_text self cur =
     (if int (length cur) > overlap self then slice_from cur (- overlap self) else cur)"

definition chunk_step :: "document_chunker \<Rightarrow> string \<Rightarrow> string \<Rightarrow> chunk_state \<Rightarrow> chunk_state" where
  "chunk_step self document_id para0 st =
     (let para = strip para0 in
      if para = [] then st
      else if int (length (current_chunk st)) + int (length para) > chunk_size self
              \<and> current_chunk st \<noteq> [] then
        let ov = overlap_text self (current_chunk st);
            cur = ov @ [newline, newline] @ para
        in \<lparr>chunks = chunks st @ [make_chunk document_id st],
            current_chunk = cur,
            chunk_start = chunk_start st + int (length cur) - int (length ov)
                          - int (length para) - 2,
            index = index st + 1\<rparr>
      else st\<lparr>current_chunk :=
                (if current_chunk st \<noteq> [] then current_chunk st @ [newline, newline] @ para
                 else para)\<rparr>)"

definition chunk_document :: "document_chunker \<Rightarrow> string \<Rightarrow> string \<Rightarrow> chunk list" where
  "chunk_document self txt document_id =
     (if txt = [] \<or> int (length txt) < chunk_size self then
        [\<lparr>chunk_id = document_id @ ''_chunk_0'',
          chunk_text = txt,
          start_char = 0,
          end_char = int (length txt),
          chunk_index = 0\<rparr>]
      else
        let st = fold (chunk_step self document_id) (split_paragraphs txt)
                   \<lparr>chunks = [], current_chunk = [], chunk_start = 0, index = 0\<rparr>
        in if strip (current_chunk st) \<noteq> [] then chunks st @ [make_chunk document_id st]
           else chunks st)"

text \<open>
  \<open>find_relevant_chunks\<close>: the keywords in lower case, each preceded by its
  words; the loop that keeps the first occurrence of every entry longer than 3
  characters, with its \<open>seen\<close> set; and the filter over the chunks. \<open>keyword in
  text_lower\<close> is \<open>sublist\<close>.
\<close>

definition partial_keywords :: "string list \<Rightarrow> string list" where
  "partial_keywords keywords_lower = concat (map (\<lambda>kw. split_ws kw @ [kw]) keywords_lower)"

definition unique_step :: "string \<Rightarrow> string set \<times> string list \<Rightarrow> string set \<times> string list" where
  "unique_step kw st =
     (case st of (seen, unique_keywords) \<Rightarrow>
        if kw \<notin> seen \<and> length kw > 3 then (insert kw seen, unique_keywords @ [kw])
        else (seen, unique_keywords))"

definition unique_keywords :: "string list \<Rightarrow> string list" where
  "unique_keywords partial = snd (fold unique_step partial ({}, []))"

definition find_relevant_chunks :: "chunk list \<Rightarrow> string list \<Rightarrow> chunk list" where
  "find_relevant_chunks chunk_list event_keywords =
     (let keywords_lower = map lower event_keywords;
          uniq = unique_keywords (partial_keywords keywords_lower)
      in filter (\<lambda>c. list_ex (\<lambda>keyword. sublist keyword (lower (chunk_text c))) uniq)
                chunk_list)"

text \<open>
  The relevance test in closed form: a keyword hits a text when the keyword in lower
  case is longer than 3 characters and occurs in the lower-cased text, or when one of its
  whitespace-separated words does.
\<close>

definition keyword_hit :: "string \<Rightarrow> string \<Rightarrow> bool" where
  "keyword_hit txt kw =
     ((3 < length kw \<and> sublist (lower kw) (lower txt)) \<or>
      (\<exists>w \<in> set (split_ws (lower kw)). 3 < length w \<and> sublist w (lower txt)))"

text \<open>A chunk whose text contains the three-letter keyword \<open>war\<close>.\<close>

definition war_chunk :: chunk where
  "war_chunk = \<lparr>chunk_id = ''d_chunk_0'', chunk_text = ''The war began'', start_char = 0,
                 end_char = 13, chunk_index = 0\<rparr>"

section \<open>Extraction comparator (src/llm\_judge/comparator.py)\<close>

text \<open>
  An extraction dictionary as loaded from \<open>event_extractions.json\<close>, with the keys the
  comparator and the extraction script read. A field is \<open>None\<close> when the key is absent,
  which is what \<open>dict.get\<close> tests.
\<close>

record extraction =
  event :: "string option"
  author :: "string option"
  claims :: "string list option"
  source_document :: "string option"

text \<open>\<open>d.get(key, default)\<close>.\<close>

definition get_or :: "'a option \<Rightarrow> 'a \<Rightarrow> 'a" where
  "get_or v dflt = (case v of Some x \<Rightarrow> x | None \<Rightarrow> dflt)"

text \<open>
  \<open>group_by_event\<close>: the \<open>defaultdict(list)\<close> is an association list in insertion
  order of the keys; \<open>add_to_group\<close> is \<open>grouped[event_id].append(extraction)\<close>.
\<close>

fun add_to_group ::
  "string \<Rightarrow> extraction \<Rightarrow> (string \<times> extraction list) list \<Rightarrow> (string \<times> extraction list) list"
where
  "add_to_group event_id x [] = [(event_id, [x])]"
| "add_to_group event_id x ((k, xs) # grouped) =
     (if k = event_id then (k, xs @ [x]) # grouped
      else (k, xs) # add_to_group event_id x grouped)"

definition group_step ::
  "extraction \<Rightarrow> (string \<times> extraction list) list \<Rightarrow> (string \<times> extraction list) list"
where
  "group_step x grouped =
     (case event x of
        Some event_id \<Rightarrow> if event_id \<noteq> [] then add_to_group event_id x grouped else grouped
      | None \<Rightarrow> grouped)"

definition group_by_event :: "extraction list \<Rightarrow> (string \<times> extraction list) list" where
  "group_by_event extractions = fold group_step extractions []"

definition is_lincoln :: "extraction \<Rightarrow> bool" where
  "is_lincoln x =
     (let a = lower (get_or (author x) [])
      in sublist ''lincoln'' a \<or> sublist ''abraham lincoln'' a)"

definition separate_step ::
  "extraction \<Rightarrow> extraction list \<times> extraction list \<Rightarrow> extraction list \<times> extraction list"
where
  "separate_step x acc =
     (case acc of (lincoln_extractions, other_extractions) \<Rightarrow>
        if is_lincoln x then (lincoln_extractions @ [x], other_extractions)
        else (lincoln_extractions, other_extractions @ [x]))"

definition separate_lincoln_and_others ::
  "extraction list \<Rightarrow> extraction list \<times> extraction list" where
  "separate_lincoln_and_others event_extractions = fold separate_step event_extractions ([], [])"

text \<open>
  \<open>str.title\<close> on ASCII letters: a letter that follows a letter is put in lower case, any
  other letter in upper case. The flag says whether the previous character was a letter.
\<close>

definition is_upper :: "char \<Rightarrow> bool" where
  "is_upper c = (65 \<le> (of_char c :: nat) \<and> (of_char c :: nat) \<le> 90)"

definition is_lower :: "char \<Rightarrow> bool" where
  "is_lower c = (97 \<le> (of_char c :: nat) \<and> (of_char c :: nat) \<le> 122)"

definition upper_char :: "char \<Rightarrow> char" where
  "upper_char c = (if is_lower c then char_of ((of_char c :: nat) - 32) else c)"

fun title_acc :: "bool \<Rightarrow> string \<Rightarrow> string" where
  "title_acc prev [] = []"
| "title_acc prev (c # cs) =
     (if is_lower c then (if prev then c else upper_char c) # title_acc True cs
      else if is_upper c then (if prev then lower_char c else c) # title_acc True cs
      else c # title_acc False cs)"

definition str_title :: "string \<Rightarrow> string" where
  "str_title s = title_acc False s"

definition event_names :: "(string \<times> string) list" where
  "event_names =
     [(''election_night_1860'', ''Election Night 1860''),
      (''fort_sumter'', ''Fort Sumter Decision''),
      (''gettysburg_address'', ''Gettysburg Address''),
      (''second_inaugural'', ''Second Inaugural Address''),
      (''fords_theatre'', ''Ford'' @ [CHR 0x27] @ ''s Theatre Assassination'')]"

definition event_name_of :: "string \<Rightarrow> string" where
  "event_name_of event_id =
     get_or (map_of event_names event_id)
       (str_title (map (\<lambda>c. if c = CHR ''_'' then CHR '' '' else c) event_id))"

record comparison_pair =
  event_id :: string
  event_name :: string
  lincoln_extraction :: extraction
  other_extraction :: extraction
  lincoln_source :: string
  other_source :: string
  lincoln_author :: string
  other_author :: string

text \<open>The truth value of \<open>ext.get('claims')\<close>: the key is present and the list is not empty.\<close>

definition has_claims :: "extraction \<Rightarrow> bool" where
  "has_claims x = (case claims x of Some cs \<Rightarrow> cs \<noteq> [] | None \<Rightarrow> False)"

definition make_pair :: "string \<Rightarrow> extraction \<Rightarrow> extraction \<Rightarrow> comparison_pair" where
  "make_pair eid lincoln_ext other_ext =
     \<lparr>event_id = eid,
      event_name = event_name_of eid,
      lincoln_extraction = lincoln_ext,
      other_extraction = other_ext,
      lincoln_source = get_or (source_document lincoln_ext) ''Unknown'',
      other_source = get_or (source_document other_ext) ''Unknown'',
      lincoln_author = get_or (author lincoln_ext) ''Abraham Lincoln'',
      other_author = get_or (author other_ext) ''Unknown''\<rparr>"

definition pairs_for_event :: "string \<times> extraction list \<Rightarrow> comparison_pair list" where
  "pairs_for_event g =
     (case g of (eid, extractions) \<Rightarrow>
        case separate_lincoln_and_others extractions of
          (lincoln_extractions, other_extractions) \<Rightarrow>
            concat (map (\<lambda>lincoln_ext.
              concat (map (\<lambda>other_ext.
                if has_claims lincoln_ext \<and> has_claims other_ext
                then [make_pair eid lincoln_ext other_ext] else [])
                other_extractions))
              lincoln_extractions))"

definition create_comparison_pairs :: "extraction list \<Rightarrow> comparison_pair list" where
  "create_comparison_pairs extractions =
     concat (map pairs_for_event (group_by_event extractions))"

text \<open>
  A Lincoln extraction without claims and another author's extraction with one claim, both
  for the same event.
\<close>

definition lincoln_no_claims :: extraction where
  "lincoln_no_claims =
     \<lparr>event = Some ''fort_sumter'', author = Some ''Abraham Lincoln'', claims = Some [],
      source_document = Some ''Letter''\<rparr>"

definition other_with_claim :: extraction where
  "other_with_claim =
     \<lparr>event = Some ''fort_sumter'', author = Some ''Charles Godfrey Leland'',
      claims = Some [''The fort was fired on''], source_document = Some ''Book''\<rparr>"

definition lincoln_with_claim :: extraction where
  "lincoln_with_claim =
     \<lparr>event = Some ''fort_sumter'', author = Some ''Abraham Lincoln'',
      claims = Some [''The fort was to be resupplied''], source_document = Some ''Letter''\<rparr>"

section \<open>Event extraction script (src/event\_extraction/main.py)\<close>

text \<open>
  The content of \<open>event_extractions.json\<close> when the script starts: the file may be
  missing, \<open>json.load\<close> may raise on it, or it holds a list whose entries are
  dictionaries or something else (on which \<open>ext.get\<close> raises).
\<close>

datatype json_entry = Dict extraction | NonDict

datatype results_file = Missing | Unreadable | Entries "json_entry list"

record resume_state =
  all_extractions :: "json_entry list"
  processed_pairs :: "(string \<times> string) set"

text \<open>
  The loop over the existing entries. Its body computes \<open>doc_id\<close> and \<open>event_id\<close> and
  then does \<open>pass\<close>. The flag is \<open>False\<close> when an entry raised.
\<close>

fun scan_existing ::
  "json_entry list \<Rightarrow> (string \<times> string) set \<Rightarrow> (string \<times> string) set \<times> bool" where
  "scan_existing [] pairs = (pairs, True)"
| "scan_existing (NonDict # rest) pairs = (pairs, False)"
| "scan_existing (Dict ext # rest) pairs =
     (let doc_id = get_or (source_document ext) [];
          eid = get_or (event ext) []
      in if doc_id \<noteq> [] \<and> eid \<noteq> [] then scan_existing rest pairs
         else scan_existing rest pairs)"

text \<open>
  Lines 93 to 113 of \<open>main\<close>: the \<open>except\<close> branch resets \<open>all_extractions\<close> and
  leaves \<open>processed_pairs\<close> as it is.
\<close>

definition load_existing :: "results_file \<Rightarrow> resume_state" where
  "load_existing f =
     (case f of
        Missing \<Rightarrow> \<lparr>all_extractions = [], processed_pairs = {}\<rparr>
      | Unreadable \<Rightarrow> \<lparr>all_extractions = [], processed_pairs = {}\<rparr>
      | Entries existing \<Rightarrow>
          (case scan_existing existing {} of
             (pairs, ok) \<Rightarrow>
               \<lparr>all_extractions = (if ok then existing else []), processed_pairs = pairs\<rparr>))"

record key_event =
  key_id :: string
  key_name :: string
  key_words :: "string list"

record document =
  doc_id :: string
  doc_title :: string
  doc_content :: "string option"

text \<open>
  The units of work of the main loop, in order: for each event, every Gutenberg book
  whose content has at least 100 characters and then every Library of Congress document
  whose content has at least 50, each given to the extractor. The loop reads neither
  \<open>processed_pairs\<close> nor \<open>all_extractions\<close> to decide.
\<close>

definition has_content :: "nat \<Rightarrow> document \<Rightarrow> bool" where
  "has_content limit d =
     (let c = get_or (doc_content d) [] in \<not> (c = [] \<or> length c < limit))"

definition units_of_event ::
  "resume_state \<Rightarrow> document list \<Rightarrow> document list \<Rightarrow> key_event \<Rightarrow> (string \<times> string) list" where
  "units_of_event st gutenberg_data loc_data ev =
     map (\<lambda>book. (doc_id book, key_id ev)) (filter (has_content 100) gutenberg_data) @
     map (\<lambda>doc. (doc_id doc, key_id ev)) (filter (has_content 50) loc_data)"

definition work_units ::
  "resume_state \<Rightarrow> key_event list \<Rightarrow> document list \<Rightarrow> document list \<Rightarrow> (string \<times> string) list"
where
  "work_units st events gutenberg_data loc_data =
     concat (map (units_of_event st gutenberg_data loc_data) events)"

text \<open>An event, a document long enough to be processed, and its extraction from an earlier run.\<close>

definition sumter_event :: key_event where
  "sumter_event = \<lparr>key_id = ''fort_sumter'', key_name = ''Fort Sumter Decision'',
                    key_words = [''Fort Sumter'', ''Sumter'']\<rparr>"

definition lincoln_letter :: document where
  "lincoln_letter = \<lparr>doc_id = ''loc_1'', doc_title = ''Letter'',
                      doc_content = Some (replicate 60 (CHR ''x''))\<rparr>"

definition letter_done :: extraction where
  "letter_done = \<lparr>event = Some ''fort_sumter'', author = Some ''Abraham Lincoln'',
       claims = Some [''The fort was to be resupplied''], source_document = Some ''Letter''\<rparr>"

section \<open>Notions used to state the chunker's properties\<close>

text \<open>The last \<open>n\<close> characters of a text, or all of it when it is shorter.\<close>

definition trailing :: "nat \<Rightarrow> string \<Rightarrow> string" where
  "trailing n t = drop (length t - n) t"

text \<open>
  What a chunk text carries over from the text before it: the overlap expression of
  \<open>chunk_document\<close> applied to the previous text, without its leading whitespace
  (every chunk text is stripped).
\<close>

definition carried :: "document_chunker \<Rightarrow> string \<Rightarrow> string" where
  "carried self prev = lstrip (overlap_text self prev)"

text \<open>
  The chunk texts put together with the carried-over overlap cut from the front of each
  text but the first. \<open>drop_overlaps\<close> has the previous text as its second argument.
\<close>

fun drop_overlaps :: "document_chunker \<Rightarrow> string \<Rightarrow> string list \<Rightarrow> string" where
  "drop_overlaps self prev [] = []"
| "drop_overlaps self prev (t # ts) =
     drop (length (carried self prev)) t @ drop_overlaps self t ts"

definition without_overlaps :: "document_chunker \<Rightarrow> string list \<Rightarrow> string" where
  "without_overlaps self ts = (case ts of [] \<Rightarrow> [] | t # rest \<Rightarrow> t @ drop_overlaps self t rest)"

text \<open>The non-whitespace characters of a text, in order.\<close>

definition nonws :: "string \<Rightarrow> string" where
  "nonws s = filter (\<lambda>c. \<not> isspace c) s"

text \<open>Every text but the first begins with what it carries over from the one before.\<close>

fun carries :: "document_chunker \<Rightarrow> string list \<Rightarrow> bool" where
  "carries self [] = True"
| "carries self [t] = True"
| "carries self (t # u # ts) = (prefix (carried self t) u \<and> carries self (u # ts))"

text \<open>
  The invariant of the loop of \<open>chunk_document\<close>, with the paragraphs read so far: the
  buffer is empty or ends in a non-whitespace character; it is not empty once a chunk
  has been emitted; the emitted texts followed by the stripped buffer carry their
  overlaps; and, with the overlaps cut, they hold the non-whitespace characters of the
  paragraphs read.
\<close>

definition chunk_inv :: "document_chunker \<Rightarrow> string list \<Rightarrow> chunk_state \<Rightarrow> bool" where
  "chunk_inv self seen st =
     ((current_chunk st = [] \<or> \<not> isspace (last (current_chunk st))) \<and>
      (chunks st \<noteq> [] \<longrightarrow> current_chunk st \<noteq> []) \<and>
      carries self (map chunk_text (chunks st) @ [lstrip (current_chunk st)]) \<and>
      nonws (without_overlaps self (map chunk_text (chunks st) @ [lstrip (current_chunk st)])) =
        nonws (concat seen))"

text \<open>
  A paragraph: a non-empty text without whitespace at either end that the paragraph
  pattern does not split.
\<close>

definition is_paragraph :: "string \<Rightarrow> bool" where
  "is_paragraph p =
     (p \<noteq> [] \<and> \<not> isspace (hd p) \<and> \<not> isspace (last p) \<and> split_paragraphs p = [p])"

text \<open>
  Two configurations and their inputs: a small one, and the default one with two
  paragraphs of 1200 characters, the first with a space 200 characters before its end.
\<close>

definition small_chunker :: document_chunker where
  "small_chunker = \<lparr>chunk_size = 10, overlap = 3\<rparr>"

definition small_text :: string where
  "small_text = ''aaaa bb'' @ [newline, newline] @ ''cccccc''"

definition default_chunker :: document_chunker where
  "default_chunker = \<lparr>chunk_size = 2000, overlap = 200\<rparr>"

definition spaced_paragraph :: string where
  "spaced_paragraph = replicate 1000 (CHR ''a'') @ CHR '' '' # replicate 199 (CHR ''b'')"

definition plain_paragraph :: string where
  "plain_paragraph = replicate 1200 (CHR ''c'')"

section \<open>Properties of the statistics module\<close>

lemma truediv_Inr: "b \<noteq> 0 \<Longrightarrow> truediv a b = Inr (a / b)"
  by (simp add: truediv_def)

lemma zip_same_agree: "filter (\<lambda>(c1, c2). c1 = c2) (zip cs cs) = zip cs cs"
  by (induction cs) auto

lemma observed_agreement_self:
  assumes "cs \<noteq> []"
  shows "observed_agreement cs cs = Inr 1"
  using assms by (simp add: observed_agreement_def zip_same_agree truediv_def)

lemma observed_agreement_nonempty:
  assumes "cats1 \<noteq> []"
  shows "\<exists>v. observed_agreement cats1 cats2 = Inr v"
  using assms by (simp add: observed_agreement_def truediv_def)

text \<open>
  C5. \<open>calculate_variance\<close> of the empty list is the all-zero record with count 0, and
  of a one-element list \<open>[x]\<close> it has variance 0 and standard deviation 0, with mean,
  minimum and maximum \<open>x\<close> and count 1.
\<close>

theorem calculate_variance_degenerate:
  "calculate_variance [] =
     \<lparr>mean = 0, variance = 0, std_dev = 0, min_score = 0, max_score = 0, count = 0\<rparr> \<and>
   calculate_variance [x] =
     \<lparr>mean = of_int x, variance = 0, std_dev = 0, min_score = x, max_score = x, count = 1\<rparr>"
  by (simp add: calculate_variance_def statistics_mean_def)

lemma category_UNIV: "(UNIV :: category set) = {Low, MediumLow, MediumHigh, High}"
  using category.exhaust by auto

lemma in_bin_categorize:
  assumes "0 \<le> s" "s \<le> 100"
  shows "in_bin (bin_of c) s \<longleftrightarrow> categorize s = c"
  using assms by (cases c) (auto simp: in_bin_def bin_of_def categorize_def)

lemma bins_match_categorize:
  assumes "0 \<le> s" "s \<le> 100" "0 \<le> t" "t \<le> 100"
  shows "bins_match s t \<longleftrightarrow> categorize s = categorize t"
  using assms by (auto simp: bins_match_def quartile_bins_def in_bin_def categorize_def)

lemma count_list_conv_card:
  "count_list xs c = card {i \<in> {..<length xs}. xs ! i = c}"
proof -
  have "count_list xs c = length (filter ((=) c) xs)"
    by (simp add: count_list_eq_length_filter)
  also have "\<dots> = card {i. i < length xs \<and> c = xs ! i}"
    by (rule length_filter_conv_card)
  also have "{i. i < length xs \<and> c = xs ! i} = {i \<in> {..<length xs}. xs ! i = c}"
    by auto
  finally show ?thesis .
qed

lemma marginal_eq:
  assumes "\<forall>s \<in> set r. 0 \<le> s \<and> s \<le> 100"
  shows "spec_marginal (bin_of c) r =
         of_nat (count_list (map categorize r) c) / of_nat (length r)"
proof -
  have "{i \<in> {..<length r}. in_bin (bin_of c) (r ! i)} =
        {i \<in> {..<length (map categorize r)}. map categorize r ! i = c}"
    using assms by (auto simp: in_bin_categorize)
  then show ?thesis
    by (simp add: spec_marginal_def count_list_conv_card)
qed

lemma observed_eq:
  assumes "length r1 = length r2" "r1 \<noteq> []"
    and "\<forall>s \<in> set r1 \<union> set r2. 0 \<le> s \<and> s \<le> 100"
  shows "observed_agreement (map categorize r1) (map categorize r2) = Inr (spec_observed r1 r2)"
proof -
  let ?z = "zip (map categorize r1) (map categorize r2)"
  have "length (filter (\<lambda>(c1, c2). c1 = c2) ?z) =
        card {i. i < length ?z \<and> (\<lambda>(c1, c2). c1 = c2) (?z ! i)}"
    by (rule length_filter_conv_card)
  also have "{i. i < length ?z \<and> (\<lambda>(c1, c2). c1 = c2) (?z ! i)} =
             {i \<in> {..<length r1}. bins_match (r1 ! i) (r2 ! i)}"
    using assms by (auto simp: bins_match_categorize)
  finally show ?thesis
    using assms(2) by (simp add: observed_agreement_def spec_observed_def truediv_def)
qed

lemma expected_eq:
  assumes "length r1 = length r2"
    and "\<forall>s \<in> set r1 \<union> set r2. 0 \<le> s \<and> s \<le> 100"
  shows "expected_agreement (map categorize r1) (map categorize r2) = spec_expected r1 r2"
proof -
  let ?c1 = "map categorize r1" and ?c2 = "map categorize r2"
  let ?f = "\<lambda>cat. (of_nat (count_list ?c1 cat) / of_nat (length ?c1)) *
                   (of_nat (count_list ?c2 cat) / real (length ?c1))"
  have zero: "?f cat = 0" if "cat \<notin> set (?c1 @ ?c2)" for cat
  proof -
    from that have "cat \<notin> set ?c1" by simp
    then have "count_list ?c1 cat = 0" by (simp add: count_list_0_iff)
    then show ?thesis by simp
  qed
  have "expected_agreement ?c1 ?c2 = sum ?f (set (?c1 @ ?c2))"
    by (simp add: expected_agreement_def)
  also have "\<dots> = sum ?f UNIV"
  proof (rule sum.mono_neutral_left)
    show "finite (UNIV :: category set)" by (simp add: category_UNIV)
    show "set (?c1 @ ?c2) \<subseteq> UNIV" by simp
    show "\<forall>cat \<in> UNIV - set (?c1 @ ?c2). ?f cat = 0" using zero by blast
  qed
  also have "\<dots> = ?f Low + ?f MediumLow + ?f MediumHigh + ?f High"
    by (simp add: category_UNIV)
  also have "\<dots> = spec_marginal (bin_of Low) r1 * spec_marginal (bin_of Low) r2 +
                    spec_marginal (bin_of MediumLow) r1 * spec_marginal (bin_of MediumLow) r2 +
                    spec_marginal (bin_of MediumHigh) r1 * spec_marginal (bin_of MediumHigh) r2 +
                    spec_marginal (bin_of High) r1 * spec_marginal (bin_of High) r2"
    using assms by (simp add: marginal_eq)
  also have "\<dots> = spec_expected r1 r2"
    by (simp add: spec_expected_def quartile_bins_def bin_of_def)
  finally show ?thesis .
qed

text \<open>
  C3. On two equal-length non-empty lists of scores (integers from 0 to 100),
  \<open>calculate_cohens_kappa\<close> returns the value the specification describes: scores
  binned into the quartiles 0-25, 26-50, 51-75, 76-100, observed agreement the fraction of
  positions whose bins match, expected agreement the sum over the categories of the
  products of the marginal probabilities, and the result
  \<open>(observed - expected) / (1 - expected)\<close>, or 1 when the expected agreement is 1.
\<close>

theorem kappa_matches_spec:
  assumes "length r1 = length r2" and "r1 \<noteq> []"
    and "\<forall>s \<in> set r1 \<union> set r2. 0 \<le> s \<and> s \<le> 100"
  shows "calculate_cohens_kappa r1 r2 = Inr (spec_kappa r1 r2)"
proof -
  have ob: "observed_agreement (map categorize r1) (map categorize r2) = Inr (spec_observed r1 r2)"
    using assms by (rule observed_eq)
  have ex: "expected_agreement (map categorize r1) (map categorize r2) = spec_expected r1 r2"
    using assms(1,3) by (rule expected_eq)
  show ?thesis
    using assms(1) by (simp add: calculate_cohens_kappa_def Let_def ob ex spec_kappa_def truediv_def)
qed

theorem kappa_matches_spec_witness:
  "calculate_cohens_kappa [10, 30, 60, 90] [10, 60, 60, 20] =
     Inr (spec_kappa [10, 30, 60, 90] [10, 60, 60, 20])"
  using kappa_matches_spec [of "[10, 30, 60, 90]" "[10, 60, 60, 20]"] by simp

lemma kappa_self:
  assumes "xs \<noteq> []"
  shows "calculate_cohens_kappa xs xs = Inr 1"
  using assms
  by (simp add: calculate_cohens_kappa_def observed_agreement_self Let_def truediv_def)

text \<open>
  C4. For a score list of length at least 2 whose binned categories are not all the
  same, \<open>calculate_cohens_kappa\<close> of the list with itself returns 1.
\<close>

theorem kappa_identical_lists:
  assumes "2 \<le> length xs"
    and "\<exists>x \<in> set xs. \<exists>y \<in> set xs. categorize x \<noteq> categorize y"
  shows "calculate_cohens_kappa xs xs = Inr 1"
proof -
  from assms(1) have "xs \<noteq> []" by auto
  then show ?thesis by (rule kappa_self)
qed

theorem kappa_identical_lists_witness:
  "2 \<le> length [10, 90 :: int] \<and> categorize 10 \<noteq> categorize 90 \<and>
   calculate_cohens_kappa [10, 90] [10, 90] = Inr 1"
proof -
  have a: "2 \<le> length [10, 90 :: int]" by simp
  have c: "categorize 10 \<noteq> categorize 90" by (simp add: categorize_def)
  then have b: "\<exists>x \<in> set [10, 90 :: int]. \<exists>y \<in> set [10, 90]. categorize x \<noteq> categorize y"
    by auto
  from a c kappa_identical_lists [OF a b] show ?thesis by blast
qed

text \<open>
  C10. \<open>calculate_cohens_kappa\<close> raises \<open>ValueError\<close> exactly when the two lists differ
  in length, and on equal-length non-empty lists it returns a number.
\<close>

theorem kappa_errors:
  "(calculate_cohens_kappa r1 r2 = Inl ValueError \<longleftrightarrow> length r1 \<noteq> length r2) \<and>
   (length r1 = length r2 \<longrightarrow> r1 \<noteq> [] \<longrightarrow> (\<exists>v. calculate_cohens_kappa r1 r2 = Inr v))"
proof (intro conjI impI)
  show "calculate_cohens_kappa r1 r2 = Inl ValueError \<longleftrightarrow> length r1 \<noteq> length r2"
    by (auto simp: calculate_cohens_kappa_def Let_def observed_agreement_def truediv_def
        split: sum.splits if_splits)
next
  assume len: "length r1 = length r2" and ne: "r1 \<noteq> []"
  obtain ob where ob: "observed_agreement (map categorize r1) (map categorize r2) = Inr ob"
    using observed_agreement_nonempty [of "map categorize r1"] ne by auto
  show "\<exists>v. calculate_cohens_kappa r1 r2 = Inr v"
    using len ob by (simp add: calculate_cohens_kappa_def Let_def truediv_def)
qed


theorem kappa_errors_witness:
  "calculate_cohens_kappa [10, 90] [20, 30] \<noteq> Inl ValueError \<and>
   calculate_cohens_kappa [10, 90] [20] = Inl ValueError \<and>
   (\<exists>v. calculate_cohens_kappa [10, 90] [20, 30] = Inr v)"
  using kappa_errors [of "[10, 90]" "[20, 30]"] kappa_errors [of "[10, 90]" "[20]"] by simp

section \<open>Properties of the document chunker\<close>

text \<open>
  C2. A text shorter than the configured chunk size gives exactly one chunk: its text is
  the whole input, it starts at 0, ends at the length of the input and has index 0.
\<close>

theorem short_text_single_chunk:
  assumes "int (length txt) < chunk_size self"
  shows "chunk_document self txt document_id =
           [\<lparr>chunk_id = document_id @ ''_chunk_0'', chunk_text = txt, start_char = 0,
             end_char = int (length txt), chunk_index = 0\<rparr>]"
  using assms by (simp add: chunk_document_def)

theorem short_text_single_chunk_witness:
  "chunk_document \<lparr>chunk_size = 2000, overlap = 200\<rparr> (replicate 1999 (CHR ''A'')) ''doc'' =
     [\<lparr>chunk_id = ''doc_chunk_0'', chunk_text = replicate 1999 (CHR ''A''), start_char = 0,
       end_char = 1999, chunk_index = 0\<rparr>]"
  using short_text_single_chunk
          [of "replicate 1999 (CHR ''A'')" "\<lparr>chunk_size = 2000, overlap = 200\<rparr>" "''doc''"]
  by simp

lemma fold_unique_step:
  assumes "set u = seen"
  shows "set (snd (fold unique_step xs (seen, u))) = seen \<union> {k \<in> set xs. 3 < length k} \<and>
         fst (fold unique_step xs (seen, u)) = set (snd (fold unique_step xs (seen, u)))"
  using assms
proof (induction xs arbitrary: seen u)
  case Nil
  then show ?case by simp
next
  case (Cons x xs)
  show ?case
  proof (cases "x \<notin> seen \<and> 3 < length x")
    case True
    then have step: "unique_step x (seen, u) = (insert x seen, u @ [x])"
      by (simp add: unique_step_def)
    have "set (u @ [x]) = insert x seen" using Cons.prems by simp
    from Cons.IH [OF this] show ?thesis using True by (auto simp: step)
  next
    case False
    then have step: "unique_step x (seen, u) = (seen, u)"
      by (auto simp: unique_step_def)
    from Cons.IH [OF Cons.prems] show ?thesis using False by (auto simp: step)
  qed
qed

lemma set_unique_keywords:
  "set (unique_keywords partial) = {k \<in> set partial. 3 < length k}"
  using fold_unique_step [of "[]" "{}" partial] by (simp add: unique_keywords_def)

lemma set_partial_keywords:
  "set (partial_keywords kws) = (\<Union>kw \<in> set kws. insert kw (set (split_ws kw)))"
  by (auto simp: partial_keywords_def)

lemma length_lower [simp]: "length (lower s) = length s"
  by (simp add: lower_def)

text \<open>
  C1 (as amended). \<open>find_relevant_chunks\<close> returns, in order, exactly the chunks whose
  lower-cased text contains a lower-cased keyword that is longer than 3 characters, or a
  whitespace-separated word, longer than 3 characters, of a lower-cased keyword.
\<close>

theorem find_relevant_chunks_exact:
  "find_relevant_chunks chunk_list event_keywords =
     filter (\<lambda>c. \<exists>kw \<in> set event_keywords. keyword_hit (chunk_text c) kw) chunk_list"
proof -
  have "list_ex (\<lambda>keyword. sublist keyword (lower t))
          (unique_keywords (partial_keywords (map lower event_keywords))) =
        (\<exists>kw \<in> set event_keywords. keyword_hit t kw)" for t
    by (auto simp: list_ex_iff set_unique_keywords set_partial_keywords keyword_hit_def)
  then show ?thesis
    by (simp add: find_relevant_chunks_def Let_def)
qed

theorem find_relevant_chunks_exact_witness:
  "find_relevant_chunks [war_chunk] [''War''] = []
   \<and> find_relevant_chunks [war_chunk] [''Civil War began''] = [war_chunk]"
proof -
  have a: "\<not> keyword_hit (chunk_text war_chunk) ''War''" by code_simp
  have b: "keyword_hit (chunk_text war_chunk) ''Civil War began''" by code_simp
  show ?thesis
    using a b find_relevant_chunks_exact [of "[war_chunk]" "[''War'']"]
      find_relevant_chunks_exact [of "[war_chunk]" "[''Civil War began'']"]
    by simp
qed

text \<open>
  C1 as stated fails: the length guard also drops a full keyword of 3 characters or
  fewer, so a chunk that contains such a keyword is not returned.
\<close>

theorem full_keyword_not_matched:
  "sublist (lower ''war'') (lower (chunk_text war_chunk)) \<and>
   war_chunk \<notin> set (find_relevant_chunks [war_chunk] [''war''])"
  by (simp add: war_chunk_def find_relevant_chunks_def unique_keywords_def partial_keywords_def
      split_ws_def unique_step_def lower_def lower_char_def isspace_def sublist_code)


section \<open>The loop of the chunker\<close>

subsection \<open>Stripping and whitespace\<close>

lemma nonws_append [simp]: "nonws (a @ b) = nonws a @ nonws b"
  by (simp add: nonws_def)

lemma nonws_lstrip [simp]: "nonws (lstrip s) = nonws s"
  unfolding nonws_def lstrip_def by (induction s) auto

lemma nonws_rstrip [simp]: "nonws (rstrip s) = nonws s"
proof -
  have "filter (\<lambda>c. \<not> isspace c) (dropWhile isspace (rev s)) = filter (\<lambda>c. \<not> isspace c) (rev s)"
    using nonws_lstrip [of "rev s"] by (simp add: nonws_def lstrip_def)
  then have "rev (filter (\<lambda>c. \<not> isspace c) (dropWhile isspace (rev s))) = filter (\<lambda>c. \<not> isspace c) s"
    by (simp add: rev_filter)
  then show ?thesis by (simp add: nonws_def rstrip_def rev_filter)
qed

lemma nonws_strip [simp]: "nonws (strip s) = nonws s"
  by (simp add: strip_def)

lemma isspace_newline [simp]: "isspace newline"
  by (simp add: isspace_def)

lemma lstrip_append:
  assumes "s \<noteq> []" "\<not> isspace (last s)"
  shows "lstrip (s @ x) = lstrip s @ x"
proof -
  have "last s \<in> set s" using assms(1) by simp
  then show ?thesis using assms(2) by (simp add: lstrip_def dropWhile_append1)
qed

lemma lstrip_nonempty:
  assumes "s \<noteq> []" "\<not> isspace (last s)"
  shows "lstrip s \<noteq> [] \<and> last (lstrip s) = last s"
proof -
  have s: "s = takeWhile isspace s @ lstrip s" by (simp add: lstrip_def)
  have "lstrip s \<noteq> []"
  proof
    assume "lstrip s = []"
    then have "\<forall>c \<in> set s. isspace c" by (simp add: lstrip_def dropWhile_eq_Nil_conv)
    moreover have "last s \<in> set s" using assms(1) by simp
    ultimately show False using assms(2) by blast
  qed
  moreover from this have "last (takeWhile isspace s @ lstrip s) = last (lstrip s)" by simp
  ultimately show ?thesis using s by simp
qed

lemma rstrip_nonws_end:
  assumes "s = [] \<or> \<not> isspace (last s)"
  shows "rstrip s = s"
proof (cases "s = []")
  case True
  then show ?thesis by (simp add: rstrip_def)
next
  case False
  then have "rev s \<noteq> []" "\<not> isspace (hd (rev s))" using assms by (simp_all add: hd_rev)
  then have "dropWhile isspace (rev s) = rev s" by (cases "rev s") auto
  then show ?thesis by (simp add: rstrip_def)
qed

lemma strip_eq_lstrip:
  assumes "s \<noteq> []" "\<not> isspace (last s)"
  shows "strip s = lstrip s"
  using lstrip_nonempty [OF assms] assms by (simp add: strip_def rstrip_nonws_end)

lemma last_rstrip:
  assumes "rstrip s \<noteq> []"
  shows "\<not> isspace (last (rstrip s))"
proof -
  let ?d = "dropWhile isspace (rev s)"
  from assms have ne: "?d \<noteq> []" by (simp add: rstrip_def)
  then have "\<not> isspace (hd ?d)" by (rule hd_dropWhile)
  moreover have "last (rev ?d) = hd ?d" using ne by (simp add: last_rev)
  ultimately show ?thesis by (simp add: rstrip_def)
qed

lemma last_strip: "strip s \<noteq> [] \<Longrightarrow> \<not> isspace (last (strip s))"
  unfolding strip_def by (rule last_rstrip)

lemma trailing_lstrip: "lstrip (trailing n (lstrip s)) = lstrip (trailing n s)"
proof -
  define w t where "w = takeWhile isspace s" and "t = lstrip s"
  have s: "s = w @ t" by (simp add: w_def t_def lstrip_def)
  have w: "\<forall>c \<in> set w. isspace c" unfolding w_def by (auto dest: set_takeWhileD)
  have len: "length s = length w + length t" unfolding s by simp
  show ?thesis
  proof (cases "n \<le> length t")
    case True
    then have "length s - n = length w + (length t - n)" using len by simp
    then have "trailing n s = drop (length w + (length t - n)) (w @ t)"
      unfolding trailing_def using s by simp
    also have "\<dots> = drop (length t - n) t" by simp
    finally show ?thesis by (simp add: trailing_def t_def)
  next
    case False
    then have t: "trailing n t = t" by (simp add: trailing_def)
    define k where "k = length s - n"
    have k: "k \<le> length w" unfolding k_def using False len by simp
    have "trailing n s = drop k (w @ t)" unfolding trailing_def k_def using s by simp
    also have "\<dots> = drop k w @ t" using k by simp
    finally have eq: "trailing n s = drop k w @ t" .
    have "\<forall>c \<in> set (drop k w). isspace c" using w by (auto dest: in_set_dropD)
    then have "lstrip (trailing n s) = lstrip t"
      unfolding eq lstrip_def by (simp add: dropWhile_append2)
    then show ?thesis using t by (simp add: t_def)
  qed
qed

subsection \<open>The overlap and the chain of chunk texts\<close>

lemma overlap_text_pos:
  assumes "0 < overlap self"
  shows "overlap_text self s = trailing (nat (overlap self)) s"
proof (cases "int (length s) > overlap self")
  case True
  then have "nat (int (length s) - overlap self) = length s - nat (overlap self)"
    using assms by linarith
  then show ?thesis using True assms
    by (simp add: overlap_text_def slice_from_def trailing_def Let_def max_def)
next
  case False
  then have "length s - nat (overlap self) = 0" by linarith
  then show ?thesis using False by (simp add: overlap_text_def trailing_def)
qed

lemma overlap_text_zero:
  assumes "overlap self = 0"
  shows "overlap_text self s = s"
  using assms by (simp add: overlap_text_def slice_from_def)

lemma overlap_text_end:
  assumes "0 \<le> overlap self" "s \<noteq> []"
  shows "overlap_text self s \<noteq> [] \<and> last (overlap_text self s) = last s"
proof (cases "overlap self = 0")
  case True
  then show ?thesis using assms(2) by (simp add: overlap_text_zero)
next
  case False
  then have pos: "0 < overlap self" using assms(1) by simp
  then have "length s - nat (overlap self) < length s" using assms(2) by (simp add: Suc_leI)
  then show ?thesis by (simp add: overlap_text_pos [OF pos] trailing_def)
qed

lemma lstrip_idem [simp]: "lstrip (lstrip s) = lstrip s"
  by (induction s) (auto simp: lstrip_def)

lemma carried_lstrip:
  assumes "0 \<le> overlap self"
  shows "carried self (lstrip s) = carried self s"
proof (cases "overlap self = 0")
  case True
  then show ?thesis by (simp add: carried_def overlap_text_zero)
next
  case False
  then have "0 < overlap self" using assms by simp
  then show ?thesis by (simp add: carried_def overlap_text_pos trailing_lstrip)
qed

lemma carries_snoc:
  "carries self (ts @ [u]) = (carries self ts \<and> (ts = [] \<or> prefix (carried self (last ts)) u))"
  by (induction self ts rule: carries.induct) auto

lemma drop_overlaps_snoc:
  "drop_overlaps self prev (ts @ [u]) =
     drop_overlaps self prev ts @ drop (length (carried self (last (prev # ts)))) u"
  by (induction ts arbitrary: prev) auto

lemma without_overlaps_snoc:
  assumes "ts \<noteq> []"
  shows "without_overlaps self (ts @ [u]) =
           without_overlaps self ts @ drop (length (carried self (last ts))) u"
proof -
  obtain t rest where ts: "ts = t # rest" using assms by (cases ts) auto
  show ?thesis unfolding ts by (simp add: without_overlaps_def drop_overlaps_snoc)
qed

lemma without_overlaps_extend:
  assumes "carries self (ts @ [u])"
  shows "without_overlaps self (ts @ [u @ x]) = without_overlaps self (ts @ [u]) @ x"
proof (cases "ts = []")
  case True
  then show ?thesis by (simp add: without_overlaps_def)
next
  case False
  with assms have "prefix (carried self (last ts)) u" by (simp add: carries_snoc)
  then have "length (carried self (last ts)) \<le> length u" by (rule prefix_length_le)
  then show ?thesis using False by (simp add: without_overlaps_snoc)
qed

lemma carries_extend:
  assumes "carries self (ts @ [u])"
  shows "carries self (ts @ [u @ x])"
  using assms by (auto simp: carries_snoc)

lemma nonws_newline [simp]: "nonws (newline # s) = nonws s"
  by (simp add: nonws_def)

lemma chunk_inv_init:
  "chunk_inv self [] \<lparr>chunks = [], current_chunk = [], chunk_start = 0, index = 0\<rparr>"
  by (simp add: chunk_inv_def without_overlaps_def nonws_def lstrip_def)

lemma chunk_inv_step:
  assumes ov: "0 \<le> overlap self" and inv: "chunk_inv self seen st"
  shows "chunk_inv self (seen @ [p]) (chunk_step self document_id p st)"
proof -
  define para where "para = strip p"
  define cur where "cur = current_chunk st"
  define T where "T = map chunk_text (chunks st)"
  from inv have i1: "cur = [] \<or> \<not> isspace (last cur)"
    and i2: "chunks st \<noteq> [] \<longrightarrow> cur \<noteq> []"
    and i3: "carries self (T @ [lstrip cur])"
    and i4: "nonws (without_overlaps self (T @ [lstrip cur])) = nonws (concat seen)"
    by (simp_all add: chunk_inv_def cur_def T_def)
  have sp: "nonws p = nonws para" by (simp add: para_def)
  show ?thesis
  proof (cases "para = []")
    case True
    then have "chunk_step self document_id p st = st"
      by (simp add: chunk_step_def para_def)
    moreover have "nonws (concat (seen @ [p])) = nonws (concat seen)"
      using True sp by (simp add: nonws_def)
    ultimately show ?thesis using inv by (simp add: chunk_inv_def)
  next
    case False
    then have pend: "\<not> isspace (last para)" unfolding para_def by (rule last_strip)
    show ?thesis
    proof (cases "int (length cur) + int (length para) > chunk_size self \<and> cur \<noteq> []")
      case True
      then have ne: "cur \<noteq> []" by simp
      with i1 have ce: "\<not> isspace (last cur)" by simp
      define ovt where "ovt = overlap_text self cur"
      define cur' where "cur' = ovt @ [newline, newline] @ para"
      have st': "chunk_step self document_id p st =
                 \<lparr>chunks = chunks st @ [make_chunk document_id st], current_chunk = cur',
                  chunk_start = chunk_start st + int (length cur') - int (length ovt)
                          - int (length para) - 2,
                  index = index st + 1\<rparr>"
        using True False
        by (simp add: chunk_step_def para_def [symmetric] cur_def [symmetric] Let_def
            ovt_def cur'_def)
      have tx: "chunk_text (make_chunk document_id st) = lstrip cur"
        using strip_eq_lstrip [OF ne ce] by (simp add: make_chunk_def cur_def)
      have ovt: "ovt \<noteq> []" "\<not> isspace (last ovt)"
        using overlap_text_end [OF ov ne] ce by (simp_all add: ovt_def)
      have ls: "lstrip cur' = lstrip ovt @ [newline, newline] @ para"
        unfolding cur'_def using lstrip_append [OF ovt] by simp
      have car: "carried self (lstrip cur) = lstrip ovt"
        using carried_lstrip [OF ov, of cur] by (simp add: carried_def ovt_def)
      have c1: "cur' \<noteq> []" "\<not> isspace (last cur')"
        using False pend by (simp_all add: cur'_def)
      have c3: "carries self ((T @ [lstrip cur]) @ [lstrip cur'])"
        unfolding carries_snoc [of self "T @ [lstrip cur]"] using i3 by (simp add: car ls)
      have "without_overlaps self ((T @ [lstrip cur]) @ [lstrip cur']) =
            without_overlaps self (T @ [lstrip cur]) @ [newline, newline] @ para"
        by (subst without_overlaps_snoc) (simp_all add: car ls)
      then have c4: "nonws (without_overlaps self ((T @ [lstrip cur]) @ [lstrip cur'])) =
                     nonws (concat (seen @ [p]))"
        using i4 sp by simp
      show ?thesis
        unfolding chunk_inv_def st' using c1 c3 c4 by (simp add: tx T_def)
    next
      case no_emit: False
      define cur' where "cur' = (if cur \<noteq> [] then cur @ [newline, newline] @ para else para)"
      have st': "chunk_step self document_id p st = st\<lparr>current_chunk := cur'\<rparr>"
        using no_emit False
        by (simp add: chunk_step_def para_def [symmetric] cur_def [symmetric] cur'_def)
      have c1: "cur' \<noteq> []" "\<not> isspace (last cur')"
        using False pend by (simp_all add: cur'_def)
      show ?thesis
      proof (cases "cur = []")
        case True
        then have T: "T = []" using i2 by (simp add: T_def)
        have "cur' = para" using True by (simp add: cur'_def)
        moreover have "nonws (concat seen) = []"
          using i4 True T by (simp add: without_overlaps_def nonws_def lstrip_def)
        ultimately show ?thesis
          unfolding chunk_inv_def st' using c1 T sp
          by (simp add: T_def [symmetric] without_overlaps_def)
      next
        case ne: False
        with i1 have ce: "\<not> isspace (last cur)" by simp
        have ls: "lstrip cur' = lstrip cur @ [newline, newline] @ para"
          using ne lstrip_append [OF ne ce] by (simp add: cur'_def)
        have c3: "carries self (T @ [lstrip cur'])"
          unfolding ls using i3 by (rule carries_extend)
        have "without_overlaps self (T @ [lstrip cur']) =
              without_overlaps self (T @ [lstrip cur]) @ [newline, newline] @ para"
          unfolding ls using i3 by (rule without_overlaps_extend)
        then have c4: "nonws (without_overlaps self (T @ [lstrip cur'])) =
                       nonws (concat (seen @ [p]))"
          using i4 sp by simp
        show ?thesis
          unfolding chunk_inv_def st' using c1 c3 c4 by (simp add: T_def [symmetric])
      qed
    qed
  qed
qed

lemma chunk_inv_fold:
  assumes "0 \<le> overlap self" "chunk_inv self seen st"
  shows "chunk_inv self (seen @ ps) (fold (chunk_step self document_id) ps st)"
  using assms(2)
proof (induction ps arbitrary: seen st)
  case Nil
  then show ?case by simp
next
  case (Cons p ps)
  from chunk_inv_step [OF assms(1) Cons.prems]
  have "chunk_inv self (seen @ [p]) (chunk_step self document_id p st)" .
  from Cons.IH [OF this] show ?case by simp
qed

subsection \<open>Paragraph splitting and the whole function\<close>

lemma nonws_drop_spaces:
  assumes "k \<le> length (takeWhile isspace s)"
  shows "nonws (drop k s) = nonws s"
  using assms
proof (induction s arbitrary: k)
  case Nil
  then show ?case by simp
next
  case (Cons c s)
  show ?case
  proof (cases k)
    case 0
    then show ?thesis by simp
  next
    case (Suc j)
    with Cons.prems have c: "isspace c" and j: "j \<le> length (takeWhile isspace s)"
      by (auto split: if_splits)
    from Cons.IH [OF j] show ?thesis using Suc c by (simp add: nonws_def)
  qed
qed

lemma blank_sep_le:
  assumes "blank_sep rest = Some k"
  shows "k \<le> length (takeWhile isspace rest)"
  using assms by (auto simp: blank_sep_def Let_def split: if_splits)

lemma nonws_re_split: "nonws (concat (re_split piece s)) = nonws (piece @ s)"
proof (induction piece s rule: re_split.induct)
  case (1 piece)
  then show ?case by simp
next
  case (2 piece c rest)
  show ?case
  proof (cases "c = newline")
    case False
    then show ?thesis using 2 by simp
  next
    case True
    show ?thesis
    proof (cases "blank_sep rest")
      case None
      then show ?thesis using True 2 by simp
    next
      case (Some k)
      have "nonws (drop k rest) = nonws rest"
        using blank_sep_le [OF Some] by (rule nonws_drop_spaces)
      then show ?thesis using True Some 2 by simp
    qed
  qed
qed

lemma nonws_split_paragraphs: "nonws (concat (split_paragraphs s)) = nonws s"
  by (simp add: split_paragraphs_def nonws_re_split)

lemma chunk_document_texts:
  assumes ov: "0 \<le> overlap self"
  shows "carries self (map chunk_text (chunk_document self s document_id)) \<and>
         nonws (without_overlaps self (map chunk_text (chunk_document self s document_id))) = nonws s"
proof (cases "s = [] \<or> int (length s) < chunk_size self")
  case True
  then show ?thesis by (simp add: chunk_document_def without_overlaps_def)
next
  case False
  define st where "st = fold (chunk_step self document_id) (split_paragraphs s)
                   \<lparr>chunks = [], current_chunk = [], chunk_start = 0, index = 0\<rparr>"
  define cur where "cur = current_chunk st"
  define T where "T = map chunk_text (chunks st)"
  have "chunk_inv self ([] @ split_paragraphs s) st"
    unfolding st_def using ov chunk_inv_init by (rule chunk_inv_fold)
  then have i1: "cur = [] \<or> \<not> isspace (last cur)"
    and i2: "chunks st \<noteq> [] \<longrightarrow> cur \<noteq> []"
    and i3: "carries self (T @ [lstrip cur])"
    and i4: "nonws (without_overlaps self (T @ [lstrip cur])) = nonws s"
    by (simp_all add: chunk_inv_def cur_def T_def nonws_split_paragraphs)
  show ?thesis
  proof (cases "cur = []")
    case True
    then have "chunks st = []" using i2 by simp
    then have "chunk_document self s document_id = []"
      using False True
      by (simp add: chunk_document_def st_def [symmetric] cur_def [symmetric] Let_def strip_def
          lstrip_def rstrip_def)
    moreover have "nonws s = []"
      using i4 True \<open>chunks st = []\<close> by (simp add: T_def without_overlaps_def lstrip_def nonws_def)
    ultimately show ?thesis by (simp add: without_overlaps_def nonws_def)
  next
    case ne: False
    with i1 have ce: "\<not> isspace (last cur)" by simp
    have se: "strip cur = lstrip cur" using ne ce by (rule strip_eq_lstrip)
    have "lstrip cur \<noteq> []" using lstrip_nonempty [OF ne ce] by simp
    then have "chunk_document self s document_id = chunks st @ [make_chunk document_id st]"
      using False se
      by (simp add: chunk_document_def st_def [symmetric] cur_def [symmetric] Let_def)
    then have "map chunk_text (chunk_document self s document_id) = T @ [lstrip cur]"
      using se by (simp add: T_def make_chunk_def cur_def)
    then show ?thesis using i3 i4 by simp
  qed
qed

lemma carries_nth:
  assumes "carries self ts" "Suc i < length ts"
  shows "prefix (carried self (ts ! i)) (ts ! Suc i)"
  using assms
proof (induction self ts arbitrary: i rule: carries.induct)
  case (3 self t u ts)
  then show ?case by (cases i) auto
qed simp_all

lemma prefix_carried_trailing:
  assumes "0 \<le> overlap self" "prefix (carried self t) u"
  shows "prefix (lstrip (trailing (nat (overlap self)) t)) u"
proof (cases "overlap self = 0")
  case True
  then show ?thesis by (simp add: trailing_def lstrip_def)
next
  case False
  then have "0 < overlap self" using assms(1) by simp
  then show ?thesis using assms(2) by (simp add: carried_def overlap_text_pos)
qed

subsection \<open>Two paragraphs\<close>

lemma re_split_nonempty: "re_split piece s \<noteq> []"
  by (induction piece s rule: re_split.induct) (auto split: option.splits)

lemma re_split_no_newline:
  assumes "newline \<notin> set s"
  shows "re_split piece s = [piece @ s]"
  using assms by (induction s arbitrary: piece) auto

lemma blank_sep_append:
  assumes "s \<noteq> []" "\<not> isspace (last s)"
  shows "blank_sep (s @ x) = blank_sep s"
proof -
  have "last s \<in> set s" using assms(1) by simp
  then have "takeWhile isspace (s @ x) = takeWhile isspace s"
    using assms(2) by (simp add: takeWhile_append1)
  then show ?thesis by (simp add: blank_sep_def)
qed

lemma blank_sep_single:
  assumes "q \<noteq> []" "\<not> isspace (hd q)"
  shows "blank_sep (newline # q) = Some 1"
proof -
  have "takeWhile isspace q = []" using assms by (cases q) auto
  then show ?thesis by (simp add: blank_sep_def)
qed

lemma re_split_two:
  assumes "s \<noteq> []" "\<not> isspace (last s)" "re_split piece s = [piece @ s]"
    and "q \<noteq> []" "\<not> isspace (hd q)" "re_split [] q = [q]"
  shows "re_split piece (s @ [newline, newline] @ q) = [piece @ s, q]"
  using assms(1-3)
proof (induction s arbitrary: piece)
  case Nil
  then show ?case by simp
next
  case (Cons c s)
  show ?case
  proof (cases "s = []")
    case True
    with Cons.prems have "c \<noteq> newline" by auto
    then show ?thesis using True blank_sep_single [OF assms(4,5)] assms(6) by simp
  next
    case False
    with Cons.prems have ls: "\<not> isspace (last s)" by simp
    show ?thesis
    proof (cases "c = newline")
      case neq: False
      with Cons.prems have "re_split (piece @ [c]) s = [(piece @ [c]) @ s]" by simp
      from Cons.IH [OF False ls this] show ?thesis using neq by simp
    next
      case True
      have none: "blank_sep s = None"
      proof (cases "blank_sep s")
        case (Some k)
        with True Cons.prems(3) have "re_split [] (drop k s) = []" by simp
        then show ?thesis using re_split_nonempty by blast
      qed simp
      with True Cons.prems have "re_split (piece @ [c]) s = [(piece @ [c]) @ s]" by simp
      from Cons.IH [OF False ls this]
      have "re_split (piece @ [c]) (s @ [newline, newline] @ q) = [piece @ c # s, q]" by simp
      moreover have "blank_sep (s @ [newline, newline] @ q) = None"
        using blank_sep_append [OF False ls] none by simp
      ultimately show ?thesis using True by simp
    qed
  qed
qed

lemma split_two_paragraphs:
  assumes "is_paragraph p1" "is_paragraph p2"
  shows "split_paragraphs (p1 @ [newline, newline] @ p2) = [p1, p2]"
proof -
  from assms have "re_split [] (p1 @ [newline, newline] @ p2) = [[] @ p1, p2]"
    unfolding is_paragraph_def split_paragraphs_def
    by (intro re_split_two) simp_all
  then show ?thesis by (simp add: split_paragraphs_def)
qed

lemma strip_paragraph:
  assumes "is_paragraph p"
  shows "strip p = p"
proof -
  from assms have "lstrip p = p" by (cases p) (auto simp: is_paragraph_def lstrip_def)
  moreover from assms have "rstrip p = p" by (simp add: is_paragraph_def rstrip_nonws_end)
  ultimately show ?thesis by (simp add: strip_def)
qed

lemma two_paragraphs_chunks:
  assumes p1: "is_paragraph p1" and p2: "is_paragraph p2"
    and big: "int (length p1) + int (length p2) > chunk_size self"
    and ov: "0 \<le> overlap self"
  shows "map chunk_text (chunk_document self (p1 @ [newline, newline] @ p2) document_id) =
           [p1, lstrip (overlap_text self p1) @ [newline, newline] @ p2]"
proof -
  define ovt where "ovt = overlap_text self p1"
  define cur where "cur = ovt @ [newline, newline] @ p2"
  have ne1: "p1 \<noteq> []" and e1: "\<not> isspace (last p1)"
    and ne2: "p2 \<noteq> []" and e2: "\<not> isspace (last p2)"
    using p1 p2 by (simp_all add: is_paragraph_def)
  have s1: "strip p1 = p1" and s2: "strip p2 = p2"
    using p1 p2 by (simp_all add: strip_paragraph)
  have ovt: "ovt \<noteq> []" "\<not> isspace (last ovt)"
    using overlap_text_end [OF ov ne1] e1 by (simp_all add: ovt_def)
  have "cur \<noteq> []" "\<not> isspace (last cur)" using ne2 e2 by (simp_all add: cur_def)
  then have "strip cur = lstrip cur" by (rule strip_eq_lstrip)
  also have "\<dots> = lstrip ovt @ [newline, newline] @ p2"
    unfolding cur_def using lstrip_append [OF ovt] by simp
  finally have sc: "strip cur = lstrip ovt @ [newline, newline] @ p2" .
  have long: "\<not> int (length (p1 @ [newline, newline] @ p2)) < chunk_size self"
    using big by simp
  have step1: "chunk_step self document_id p1
                 \<lparr>chunks = [], current_chunk = [], chunk_start = 0, index = 0\<rparr> =
               \<lparr>chunks = [], current_chunk = p1, chunk_start = 0, index = 0\<rparr>"
    using ne1 by (simp add: chunk_step_def s1)
  have step2: "current_chunk (chunk_step self document_id p2
                 \<lparr>chunks = [], current_chunk = p1, chunk_start = 0, index = 0\<rparr>) = cur \<and>
               map chunk_text (chunks (chunk_step self document_id p2
                 \<lparr>chunks = [], current_chunk = p1, chunk_start = 0, index = 0\<rparr>)) = [p1]"
    using ne1 ne2 big
    by (simp add: chunk_step_def s2 Let_def make_chunk_def s1 cur_def ovt_def)
  define st where "st = fold (chunk_step self document_id)
                   (split_paragraphs (p1 @ [newline, newline] @ p2))
                   \<lparr>chunks = [], current_chunk = [], chunk_start = 0, index = 0\<rparr>"
  have "st = chunk_step self document_id p2
               \<lparr>chunks = [], current_chunk = p1, chunk_start = 0, index = 0\<rparr>"
    unfolding st_def split_two_paragraphs [OF p1 p2] by (simp add: step1)
  with step2 have st: "current_chunk st = cur" "map chunk_text (chunks st) = [p1]"
    by simp_all
  have "chunk_document self (p1 @ [newline, newline] @ p2) document_id =
          chunks st @ [make_chunk document_id st]"
    unfolding chunk_document_def st_def [symmetric] Let_def
    using long ne1 sc st(1) by simp
  then show ?thesis
    using st sc by (simp add: make_chunk_def ovt_def)
qed

lemma is_paragraph_no_newline:
  assumes "p \<noteq> []" "\<not> isspace (hd p)" "\<not> isspace (last p)" "newline \<notin> set p"
  shows "is_paragraph p"
  using assms by (simp add: is_paragraph_def split_paragraphs_def re_split_no_newline)

lemma is_paragraph_spaced: "is_paragraph spaced_paragraph"
  by (rule is_paragraph_no_newline) (simp_all add: spaced_paragraph_def isspace_def)

lemma is_paragraph_plain: "is_paragraph plain_paragraph"
  by (rule is_paragraph_no_newline) (simp_all add: plain_paragraph_def isspace_def)

lemma trailing_spaced:
  "trailing 200 spaced_paragraph = CHR '' '' # replicate 199 (CHR ''b'')"
  by (simp add: trailing_def spaced_paragraph_def)

lemma lstrip_spaced:
  "lstrip (CHR '' '' # replicate 199 (CHR ''b'')) = replicate 199 (CHR ''b'')"
proof -
  have "isspace (CHR '' '')" "\<not> isspace (CHR ''b'')" by (simp_all add: isspace_def)
  then show ?thesis unfolding lstrip_def by (simp only: dropWhile.simps dropWhile_replicate if_True if_False)
qed

text \<open>
  C7 (as amended). With a non-negative overlap, every chunk but the first begins with
  the last \<open>overlap\<close> characters of the previous chunk's text, less the leading
  whitespace of those characters. In particular two paragraphs of 1200 characters each,
  joined by a blank line, give exactly two chunks with chunk size 2000: the first is the
  first paragraph and the second begins with its so-stripped overlap-length suffix.
\<close>

theorem overlap_between_chunks:
  assumes "0 \<le> overlap self"
  shows "(\<forall>i. Suc i < length (chunk_document self s d) \<longrightarrow>
            prefix (lstrip (trailing (nat (overlap self)) (chunk_text (chunk_document self s d ! i))))
                   (chunk_text (chunk_document self s d ! Suc i))) \<and>
         (is_paragraph p1 \<and> is_paragraph p2 \<and> length p1 = 1200 \<and> length p2 = 1200 \<and>
          chunk_size self = 2000 \<longrightarrow>
            length (chunk_document self (p1 @ [newline, newline] @ p2) d) = 2 \<and>
            chunk_text (chunk_document self (p1 @ [newline, newline] @ p2) d ! 0) = p1 \<and>
            prefix (lstrip (trailing (nat (overlap self)) p1))
                   (chunk_text (chunk_document self (p1 @ [newline, newline] @ p2) d ! 1)))"
proof (rule conjI)
  let ?ts = "map chunk_text (chunk_document self s d)"
  have car: "carries self ?ts" using chunk_document_texts [OF assms] by blast
  show "\<forall>i. Suc i < length (chunk_document self s d) \<longrightarrow>
            prefix (lstrip (trailing (nat (overlap self)) (chunk_text (chunk_document self s d ! i))))
                   (chunk_text (chunk_document self s d ! Suc i))"
  proof (intro allI impI)
    fix i
    assume i: "Suc i < length (chunk_document self s d)"
    then have "Suc i < length ?ts" by simp
    with car have "prefix (carried self (?ts ! i)) (?ts ! Suc i)" by (rule carries_nth)
    then have "prefix (lstrip (trailing (nat (overlap self)) (?ts ! i))) (?ts ! Suc i)"
      using assms by (intro prefix_carried_trailing)
    then show "prefix (lstrip (trailing (nat (overlap self))
                         (chunk_text (chunk_document self s d ! i))))
                 (chunk_text (chunk_document self s d ! Suc i))"
      using i by simp
  qed
next
  let ?cs = "chunk_document self (p1 @ [newline, newline] @ p2) d"
  show "is_paragraph p1 \<and> is_paragraph p2 \<and> length p1 = 1200 \<and> length p2 = 1200 \<and>
          chunk_size self = 2000 \<longrightarrow>
            length ?cs = 2 \<and> chunk_text (?cs ! 0) = p1 \<and>
            prefix (lstrip (trailing (nat (overlap self)) p1)) (chunk_text (?cs ! 1))"
  proof (rule impI)
    assume h: "is_paragraph p1 \<and> is_paragraph p2 \<and> length p1 = 1200 \<and> length p2 = 1200 \<and>
            chunk_size self = 2000"
    have big: "int (length p1) + int (length p2) > chunk_size self" using h by simp
    have two: "map chunk_text ?cs = [p1, lstrip (overlap_text self p1) @ [newline, newline] @ p2]"
      using h big assms by (intro two_paragraphs_chunks) simp_all
    then obtain c1 c2 where cs: "?cs = [c1, c2]" and t0: "chunk_text c1 = p1"
      and t1: "chunk_text c2 = lstrip (overlap_text self p1) @ [newline, newline] @ p2"
      by (auto simp: map_eq_Cons_conv)
    have "prefix (carried self p1) (chunk_text c2)"
      unfolding t1 carried_def by simp
    then have "prefix (lstrip (trailing (nat (overlap self)) p1)) (chunk_text c2)"
      using assms by (intro prefix_carried_trailing)
    then show "length ?cs = 2 \<and> chunk_text (?cs ! 0) = p1 \<and>
            prefix (lstrip (trailing (nat (overlap self)) p1)) (chunk_text (?cs ! 1))"
      unfolding cs using t0 by simp
  qed
qed

theorem overlap_between_chunks_witness:
  "length (chunk_document default_chunker
             (spaced_paragraph @ [newline, newline] @ plain_paragraph) ''doc'') = 2 \<and>
   chunk_text (chunk_document default_chunker
             (spaced_paragraph @ [newline, newline] @ plain_paragraph) ''doc'' ! 0) = spaced_paragraph \<and>
   prefix (lstrip (trailing 200 spaced_paragraph))
          (chunk_text (chunk_document default_chunker
             (spaced_paragraph @ [newline, newline] @ plain_paragraph) ''doc'' ! 1))"
proof -
  have ov: "0 \<le> overlap default_chunker" by (simp add: default_chunker_def)
  have h: "is_paragraph spaced_paragraph \<and> is_paragraph plain_paragraph \<and>
           length spaced_paragraph = 1200 \<and> length plain_paragraph = 1200 \<and>
           chunk_size default_chunker = 2000"
    using is_paragraph_spaced is_paragraph_plain
    by (simp add: spaced_paragraph_def plain_paragraph_def default_chunker_def)
  have n: "nat (overlap default_chunker) = 200" by (simp add: default_chunker_def)
  from overlap_between_chunks [OF ov, of _ "''doc''" spaced_paragraph plain_paragraph] h n
  show ?thesis by simp
qed

text \<open>
  C7 as stated fails, because the text of a chunk is stripped: when the overlap-length
  suffix of a chunk's text begins with whitespace, the next chunk begins behind that
  whitespace. This happens with chunk size 10 and overlap 3, and with two paragraphs of
  1200 characters, chunk size 2000 and overlap 200.
\<close>

theorem overlap_suffix_counterexample:
  "map chunk_text (chunk_document small_chunker small_text ''doc'') =
     [''aaaa bb'', ''bb'' @ [newline, newline] @ ''cccccc''] \<and>
   trailing 3 ''aaaa bb'' = '' bb'' \<and>
   \<not> prefix '' bb'' (''bb'' @ [newline, newline] @ ''cccccc'') \<and>
   is_paragraph spaced_paragraph \<and> is_paragraph plain_paragraph \<and>
   length spaced_paragraph = 1200 \<and> length plain_paragraph = 1200 \<and>
   map chunk_text (chunk_document default_chunker
      (spaced_paragraph @ [newline, newline] @ plain_paragraph) ''doc'') =
     [spaced_paragraph, replicate 199 (CHR ''b'') @ [newline, newline] @ plain_paragraph] \<and>
   trailing 200 spaced_paragraph = CHR '' '' # replicate 199 (CHR ''b'') \<and>
   \<not> prefix (CHR '' '' # replicate 199 (CHR ''b''))
        (replicate 199 (CHR ''b'') @ [newline, newline] @ plain_paragraph)"
proof -
  have a: "map chunk_text (chunk_document small_chunker small_text ''doc'') =
     [''aaaa bb'', ''bb'' @ [newline, newline] @ ''cccccc'']"
    by code_simp
  have b: "trailing 3 ''aaaa bb'' = '' bb''" by (simp add: trailing_def)
  have c: "\<not> prefix '' bb'' (''bb'' @ [newline, newline] @ ''cccccc'')" by simp
  have len: "length spaced_paragraph = 1200" "length plain_paragraph = 1200"
    by (simp_all add: spaced_paragraph_def plain_paragraph_def)
  have "overlap_text default_chunker spaced_paragraph = trailing 200 spaced_paragraph"
    using overlap_text_pos [of default_chunker spaced_paragraph] by (simp add: default_chunker_def)
  then have ls: "lstrip (overlap_text default_chunker spaced_paragraph) = replicate 199 (CHR ''b'')"
    by (simp only: trailing_spaced lstrip_spaced)
  have "map chunk_text (chunk_document default_chunker
      (spaced_paragraph @ [newline, newline] @ plain_paragraph) ''doc'') =
     [spaced_paragraph, lstrip (overlap_text default_chunker spaced_paragraph) @
        [newline, newline] @ plain_paragraph]"
    using is_paragraph_spaced is_paragraph_plain
    by (rule two_paragraphs_chunks) (simp_all add: len default_chunker_def)
  then have d: "map chunk_text (chunk_document default_chunker
      (spaced_paragraph @ [newline, newline] @ plain_paragraph) ''doc'') =
     [spaced_paragraph, replicate 199 (CHR ''b'') @ [newline, newline] @ plain_paragraph]"
    by (simp only: ls)
  have "replicate 199 (CHR ''b'') = CHR ''b'' # replicate 198 (CHR ''b'')"
    by (simp add: replicate_Suc [symmetric] del: replicate_Suc)
  then have e: "\<not> prefix (CHR '' '' # replicate 199 (CHR ''b''))
        (replicate 199 (CHR ''b'') @ [newline, newline] @ plain_paragraph)"
    by simp
  from a b c is_paragraph_spaced is_paragraph_plain len d trailing_spaced e
  show ?thesis by blast
qed

text \<open>
  C8. With a non-negative overlap, every chunk text but the first begins with the overlap
  carried over from the text before it, and the chunk texts put together with each
  carried-over overlap cut from the front have the non-whitespace characters of the input
  text, all of them and in order.
\<close>

theorem non_whitespace_preserved:
  assumes "0 \<le> overlap self"
  shows "carries self (map chunk_text (chunk_document self s d)) \<and>
         nonws (without_overlaps self (map chunk_text (chunk_document self s d))) = nonws s"
  using assms by (rule chunk_document_texts)

theorem non_whitespace_preserved_witness:
  "nonws (without_overlaps small_chunker
            (map chunk_text (chunk_document small_chunker small_text ''doc''))) =
     ''aaaabbcccccc''"
proof -
  have ov: "0 \<le> overlap small_chunker" by (simp add: small_chunker_def)
  have "nonws small_text = ''aaaabbcccccc''"
    by (simp add: nonws_def small_text_def isspace_def)
  with non_whitespace_preserved [OF ov, of small_text "''doc''"] show ?thesis by simp
qed

section \<open>Properties of the comparator\<close>

lemma fold_separate_step:
  "fold separate_step xs (ls, os) = (ls @ filter is_lincoln xs, os @ filter (\<lambda>x. \<not> is_lincoln x) xs)"
  by (induction xs arbitrary: ls os) (simp_all add: separate_step_def)

lemma separate_conv_filter:
  "separate_lincoln_and_others xs = (filter is_lincoln xs, filter (\<lambda>x. \<not> is_lincoln x) xs)"
  by (simp add: separate_lincoln_and_others_def fold_separate_step)

lemma map_of_add_to_group:
  "map_of (add_to_group k x g) =
     (map_of g)(k \<mapsto> (case map_of g k of None \<Rightarrow> [x] | Some xs \<Rightarrow> xs @ [x]))"
  by (induction k x g rule: add_to_group.induct) (auto simp: fun_eq_iff)

lemma keys_add_to_group:
  "map fst (add_to_group k x g) = (if k \<in> fst ` set g then map fst g else map fst g @ [k])"
  by (induction k x g rule: add_to_group.induct) (auto simp: image_iff)

lemma distinct_add_to_group:
  "distinct (map fst g) \<Longrightarrow> distinct (map fst (add_to_group k x g))"
  by (simp add: keys_add_to_group)

lemma group_by_event_snoc:
  "group_by_event (xs @ [x]) = group_step x (group_by_event xs)"
  by (simp add: group_by_event_def)

lemma distinct_group_by_event: "distinct (map fst (group_by_event xs))"
proof (induction xs rule: rev_induct)
  case Nil
  then show ?case by (simp add: group_by_event_def)
next
  case (snoc x xs)
  then show ?case
    by (simp add: group_by_event_snoc group_step_def distinct_add_to_group split: option.split)
qed

lemma map_of_group_by_event:
  "map_of (group_by_event xs) e =
     (if e \<noteq> [] \<and> filter (\<lambda>x. event x = Some e) xs \<noteq> []
      then Some (filter (\<lambda>x. event x = Some e) xs) else None)"
proof (induction xs rule: rev_induct)
  case Nil
  then show ?case by (simp add: group_by_event_def)
next
  case (snoc x xs)
  show ?case
  proof (cases "event x")
    case None
    then show ?thesis using snoc by (simp add: group_by_event_snoc group_step_def)
  next
    case (Some k)
    show ?thesis
    proof (cases "k = []")
      case True
      then show ?thesis using snoc Some by (auto simp: group_by_event_snoc group_step_def)
    next
      case False
      then show ?thesis using snoc Some
        by (auto simp: group_by_event_snoc group_step_def map_of_add_to_group)
    qed
  qed
qed

lemma event_id_pairs_for_event:
  "p \<in> set (pairs_for_event (k, g)) \<Longrightarrow> event_id p = k"
  by (auto simp: pairs_for_event_def make_pair_def split: prod.splits if_splits)

lemma filter_pairs_for_event:
  "filter (\<lambda>p. event_id p = e) (pairs_for_event (k, g)) =
     (if k = e then pairs_for_event (k, g) else [])"
proof (cases "k = e")
  case True
  then have "\<forall>p \<in> set (pairs_for_event (k, g)). event_id p = e"
    using event_id_pairs_for_event by blast
  then show ?thesis using True by (simp add: filter_id_conv)
next
  case False
  then have "\<forall>p \<in> set (pairs_for_event (k, g)). event_id p \<noteq> e"
    using event_id_pairs_for_event by blast
  then show ?thesis using False by (simp add: filter_empty_conv)
qed

lemma filter_concat_groups:
  assumes "distinct (map fst G)"
  shows "filter (\<lambda>p. event_id p = e) (concat (map pairs_for_event G)) =
           (case map_of G e of None \<Rightarrow> [] | Some g \<Rightarrow> pairs_for_event (e, g))"
  using assms
proof (induction G)
  case Nil
  then show ?case by simp
next
  case (Cons kg G)
  obtain k g where kg: "kg = (k, g)" by (cases kg)
  show ?case
  proof (cases "k = e")
    case True
    with Cons.prems kg have "e \<notin> fst ` set G" by auto
    then have "map_of G e = None" by (simp add: map_of_eq_None_iff)
    with Cons True kg show ?thesis by (simp add: filter_pairs_for_event)
  next
    case False
    with Cons kg show ?thesis by (simp add: filter_pairs_for_event)
  qed
qed

lemma inner_pairs:
  "concat (map (\<lambda>y. if P \<and> Q y then [f y] else []) ys) =
     (if P then map f (filter Q ys) else [])"
  by (induction ys) auto

lemma nested_pairs:
  "concat (map (\<lambda>x. concat (map (\<lambda>y. if P x \<and> Q y then [f x y] else []) ys)) xs) =
     map (\<lambda>(x, y). f x y) (List.product (filter P xs) (filter Q ys))"
  by (induction xs) (simp_all add: inner_pairs comp_def)

lemma pairs_for_event_product:
  "pairs_for_event (e, g) =
     map (\<lambda>(l, r). make_pair e l r)
       (List.product (filter has_claims (fst (separate_lincoln_and_others g)))
                     (filter has_claims (snd (separate_lincoln_and_others g))))"
  by (simp add: pairs_for_event_def separate_conv_filter nested_pairs)

text \<open>
  C6 (as amended). For every event id, the pairs that \<open>create_comparison_pairs\<close> emits
  for the event are the cross product of the Lincoln extractions that have claims with
  the other authors' extractions that have claims, both taken from the extractions of
  that event; their number is the product of the two counts.
\<close>

theorem pairs_of_event:
  assumes "e \<noteq> []"
  shows "filter (\<lambda>p. event_id p = e) (create_comparison_pairs extractions) =
           map (\<lambda>(l, r). make_pair e l r)
             (List.product
                (filter has_claims
                   (fst (separate_lincoln_and_others (filter (\<lambda>x. event x = Some e) extractions))))
                (filter has_claims
                   (snd (separate_lincoln_and_others (filter (\<lambda>x. event x = Some e) extractions)))))
         \<and> length (filter (\<lambda>p. event_id p = e) (create_comparison_pairs extractions)) =
             length (filter has_claims
                   (fst (separate_lincoln_and_others (filter (\<lambda>x. event x = Some e) extractions))))
           * length (filter has_claims
                   (snd (separate_lincoln_and_others (filter (\<lambda>x. event x = Some e) extractions))))"
proof -
  let ?g = "filter (\<lambda>x. event x = Some e) extractions"
  let ?rhs = "map (\<lambda>(l, r). make_pair e l r)
             (List.product (filter has_claims (fst (separate_lincoln_and_others ?g)))
                (filter has_claims (snd (separate_lincoln_and_others ?g))))"
  have "filter (\<lambda>p. event_id p = e) (create_comparison_pairs extractions) =
        (case map_of (group_by_event extractions) e of None \<Rightarrow> []
         | Some g \<Rightarrow> pairs_for_event (e, g))"
    unfolding create_comparison_pairs_def
    by (rule filter_concat_groups) (rule distinct_group_by_event)
  also have "\<dots> = ?rhs"
  proof (cases "?g = []")
    case True
    then show ?thesis
      by (simp add: map_of_group_by_event separate_conv_filter)
  next
    case False
    then show ?thesis using assms
      by (simp add: map_of_group_by_event pairs_for_event_product)
  qed
  finally have main: "filter (\<lambda>p. event_id p = e) (create_comparison_pairs extractions) = ?rhs" .
  have "length ?rhs = length (filter has_claims (fst (separate_lincoln_and_others ?g)))
           * length (filter has_claims (snd (separate_lincoln_and_others ?g)))"
    by (simp add: length_product)
  with main show ?thesis by simp
qed

theorem pairs_of_event_witness:
  "length (filter (\<lambda>p. event_id p = ''fort_sumter'')
     (create_comparison_pairs [lincoln_with_claim, lincoln_no_claims, other_with_claim])) = 1"
proof -
  have ne: "''fort_sumter'' \<noteq> []" by simp
  have a: "length (filter has_claims (fst (separate_lincoln_and_others
             (filter (\<lambda>x. event x = Some ''fort_sumter'')
                [lincoln_with_claim, lincoln_no_claims, other_with_claim])))) = 1"
    by code_simp
  have b: "length (filter has_claims (snd (separate_lincoln_and_others
             (filter (\<lambda>x. event x = Some ''fort_sumter'')
                [lincoln_with_claim, lincoln_no_claims, other_with_claim])))) = 1"
    by code_simp
  show ?thesis
    using pairs_of_event [OF ne, of "[lincoln_with_claim, lincoln_no_claims, other_with_claim]"] a b
    by simp
qed

text \<open>
  C6 as stated fails: one Lincoln extraction and one other extraction are grouped under
  the event, and no pair is emitted, because the Lincoln extraction has no claims.
\<close>

theorem cross_product_counterexample:
  "group_by_event [lincoln_no_claims, other_with_claim] =
     [(''fort_sumter'', [lincoln_no_claims, other_with_claim])] \<and>
   length (fst (separate_lincoln_and_others [lincoln_no_claims, other_with_claim])) *
   length (snd (separate_lincoln_and_others [lincoln_no_claims, other_with_claim])) = 1 \<and>
   length (create_comparison_pairs [lincoln_no_claims, other_with_claim]) = 0"
  by code_simp

section \<open>Properties of the extraction script\<close>

lemma scan_existing_pairs: "fst (scan_existing existing pairs) = pairs"
proof (induction existing)
  case Nil
  then show ?case by simp
next
  case (Cons entry rest)
  then show ?case by (cases entry) (simp_all add: Let_def)
qed

lemma processed_pairs_load_existing: "processed_pairs (load_existing f) = {}"
proof (cases f)
  case (Entries existing)
  obtain pairs ok where sc: "scan_existing existing {} = (pairs, ok)"
    by (cases "scan_existing existing {}")
  with scan_existing_pairs [of existing "{}"] have "pairs = {}" by simp
  with sc Entries show ?thesis by (simp add: load_existing_def)
qed (simp_all add: load_existing_def)

text \<open>
  C9. Whatever the results file holds when the script starts, \<open>processed_pairs\<close> is
  empty after the resume-loading step, and every (document, event) unit whose document
  has enough content is given to the extractor again, also one whose extraction is
  already in the file.
\<close>

theorem processed_pairs_never_populated:
  "processed_pairs (load_existing f) = {} \<and>
   (\<forall>ev \<in> set events.
      (\<forall>book \<in> set gutenberg_data. has_content 100 book \<longrightarrow>
         (doc_id book, key_id ev) \<in> set (work_units (load_existing f) events gutenberg_data loc_data)) \<and>
      (\<forall>doc \<in> set loc_data. has_content 50 doc \<longrightarrow>
         (doc_id doc, key_id ev) \<in> set (work_units (load_existing f) events gutenberg_data loc_data)))"
proof (intro conjI ballI impI)
  show "processed_pairs (load_existing f) = {}" by (rule processed_pairs_load_existing)
next
  fix ev book
  assume "ev \<in> set events" "book \<in> set gutenberg_data" "has_content 100 book"
  then show "(doc_id book, key_id ev) \<in> set (work_units (load_existing f) events gutenberg_data loc_data)"
    by (force simp: work_units_def units_of_event_def)
next
  fix ev doc
  assume "ev \<in> set events" "doc \<in> set loc_data" "has_content 50 doc"
  then show "(doc_id doc, key_id ev) \<in> set (work_units (load_existing f) events gutenberg_data loc_data)"
    by (force simp: work_units_def units_of_event_def)
qed

theorem processed_pairs_never_populated_witness:
  "processed_pairs (load_existing (Entries [Dict letter_done])) = {} \<and>
   has_content 50 lincoln_letter \<and>
   (''loc_1'', ''fort_sumter'') \<in>
     set (work_units (load_existing (Entries [Dict letter_done])) [sumter_event] [] [lincoln_letter])"
proof -
  have c: "has_content 50 lincoln_letter"
    by (simp add: has_content_def lincoln_letter_def get_or_def)
  have "doc_id lincoln_letter = ''loc_1''" "key_id sumter_event = ''fort_sumter''"
    by (simp_all add: lincoln_letter_def sumter_event_def)
  with c processed_pairs_never_populated
         [of "Entries [Dict letter_done]" "[sumter_event]" "[]" "[lincoln_letter]"]
  show ?thesis by simp
qed


end
